theory Spec2Isabelle
  imports Main "HOL-Library.Multiset" "HOL-Library.Product_Lexorder"
begin

section \<open>Sequence places\<close>

text \<open>
  The overlap index, \<^verbatim>\<open>OverlappingIntervalsIndex\<close> of
  \<^verbatim>\<open>overlappingIntervalsIndex.ts\<close>, is the only part of the interval machinery whose code
  is at hand. What it imports (the normalisation of places, the interval helpers, the interval
  tree) is not, and is modelled from the specification; each such definition says so. The
  methods of the index itself are translated from their source.
\<close>

text \<open>
  Modelled from the spec: the declaration of \<^verbatim>\<open>Side\<close> (\<^verbatim>\<open>intervalCollection.ts\<close>) is
  missing; its two members are the ones the source tests for.
\<close>

datatype Side = Before | After

text \<open>
  Modelled from the spec: the type \<^verbatim>\<open>SequencePlace\<close> (\<^verbatim>\<open>intervalCollection.ts\<close>)
  is missing. A place is a resolved offset with a side, or one of the two sentinels, which the
  source writes \<^verbatim>\<open>"start"\<close> and \<^verbatim>\<open>"end"\<close>.
\<close>

datatype SequencePlace = SeqStart | SeqEnd | Interior int Side

text \<open>
  Modelled from the spec: the canonical pair of an offset and a side that normalisation
  yields, with the field names under which the source reads it.
\<close>

record NormalizedPlace =
  pos :: int
  side :: Side

text \<open>
  Modelled from the spec: \<^verbatim>\<open>normalizeSequencePlace\<close> (\<^verbatim>\<open>intervalCollection.ts\<close>)
  is missing. It is total and pure and yields the canonical (offset, side) pair, offset \<open>-1\<close>
  being reserved for the sentinels. Which side marks which sentinel follows the inversion test
  of \<^verbatim>\<open>findOverlappingIntervals\<close>, whose comments call \<open>(-1, Before)\<close> the end of the
  sequence and \<open>(-1, After)\<close> its start, as does section 4.4 of the specification.
\<close>

fun normalizeSequencePlace :: "SequencePlace \<Rightarrow> NormalizedPlace" where
  "normalizeSequencePlace SeqStart = \<lparr>pos = - 1, side = After\<rparr>"
| "normalizeSequencePlace SeqEnd = \<lparr>pos = - 1, side = Before\<rparr>"
| "normalizeSequencePlace (Interior p s) = \<lparr>pos = p, side = s\<rparr>"

text \<open>
  Modelled from the spec: at one offset, \<open>Before\<close> denotes the gap before it and
  \<open>After\<close> the gap after it, so \<open>Before\<close> comes first.
\<close>

fun sideRank :: "Side \<Rightarrow> int" where
  "sideRank Before = 0"
| "sideRank After = 1"

text \<open>
  Modelled from the spec: the position order of the sequence is missing. The start of the
  sequence sorts before every resolved offset and the end of the sequence after every resolved
  offset; resolved places are ordered by offset and then by side. \<open>placeKey\<close> maps a place to
  a triple whose lexicographic order is that order.
\<close>

definition placeKey :: "NormalizedPlace \<Rightarrow> int \<times> int \<times> int" where
  "placeKey p =
     (if pos p = - 1 then (if side p = After then (0, 0, 0) else (2, 0, 0))
      else (1, pos p, sideRank (side p)))"

text \<open>
  Modelled from the spec: the three-way comparison of two places under the position order,
  negative, zero or positive as a comparison function of the source is.
\<close>

definition comparePlaces :: "NormalizedPlace \<Rightarrow> NormalizedPlace \<Rightarrow> int" where
  "comparePlaces a b =
     (if placeKey a < placeKey b then - 1 else if placeKey a = placeKey b then 0 else 1)"

section \<open>Intervals\<close>

text \<open>
  Modelled from the spec: the declaration of \<^verbatim>\<open>IntervalType\<close> is missing. An interval is
  persistent (stored, owning its identity) or transient (a probe); the source names the
  latter.
\<close>

datatype IntervalType = Persistent | Transient

text \<open>
  Modelled from the spec: the interval type is a parameter of the index and its declaration is
  missing. An interval bears an identity, two places and a kind.
\<close>

record Interval =
  ident :: string
  startPlace :: NormalizedPlace
  endPlace :: NormalizedPlace
  kind :: IntervalType

text \<open>
  Modelled from the spec: \<^verbatim>\<open>helpers.create\<close> is missing. It constructs a value from an
  id, two places and a kind, and does not touch the tree. The client and the optional arguments
  the source passes have no counterpart here.
\<close>

definition create :: "string \<Rightarrow> SequencePlace \<Rightarrow> SequencePlace \<Rightarrow> IntervalType \<Rightarrow> Interval" where
  "create label start end' intervalType =
     \<lparr>ident = label, startPlace = normalizeSequencePlace start,
      endPlace = normalizeSequencePlace end', kind = intervalType\<rparr>"

text \<open>
  Modelled from the spec: \<^verbatim>\<open>compareStart\<close> is missing. It compares the starts of two
  intervals under the position order.
\<close>

definition compareStart :: "Interval \<Rightarrow> Interval \<Rightarrow> int" where
  "compareStart a b = comparePlaces (startPlace a) (startPlace b)"

text \<open>
  Modelled from the spec: \<^verbatim>\<open>compareEnd\<close> is missing. It compares the ends of two
  intervals under the position order.
\<close>

definition compareEnd :: "Interval \<Rightarrow> Interval \<Rightarrow> int" where
  "compareEnd a b = comparePlaces (endPlace a) (endPlace b)"

text \<open>
  Modelled from the spec: \<^verbatim>\<open>compare\<close> is missing. It is start-major and end-minor, so
  two intervals with equal endpoints compare equal whatever their identities.
\<close>

definition compare :: "Interval \<Rightarrow> Interval \<Rightarrow> int" where
  "compare a b =
     (let startResult = compareStart a b
      in if startResult = 0 then compareEnd a b else startResult)"

text \<open>
  Modelled from the spec: the overlap predicate, \<open>I.start \<le> Q.end\<close> and
  \<open>I.end \<ge> Q.start\<close> under the position order.
\<close>

definition overlaps :: "Interval \<Rightarrow> Interval \<Rightarrow> bool" where
  "overlaps i q \<longleftrightarrow>
     comparePlaces (startPlace i) (endPlace q) \<le> 0 \<and> comparePlaces (endPlace i) (startPlace q) \<ge> 0"

section \<open>The interval tree\<close>

text \<open>
  Modelled from the spec: \<^verbatim>\<open>IntervalTree\<close> and \<^verbatim>\<open>IntervalNode\<close>
  (\<^verbatim>\<open>intervalTree.ts\<close>) are missing. A node wraps one stored interval, holds the links to
  its two children and tracks the maximum end of its subtree. The specification asks for a
  balanced tree and names no balancing scheme; none is modelled, and every property of a query
  below is proved for all trees that satisfy the ordering and maximum-end invariants, whatever
  their shape.
\<close>

datatype IntervalNode =
  Leaf
| Node (left: IntervalNode) (key: Interval) (maxEnd: NormalizedPlace) (right: IntervalNode)

text \<open>
  Modelled from the spec: \<^verbatim>\<open>isEmpty\<close> of the underlying tree is missing. A tree is empty
  when it has no node.
\<close>

definition isEmpty :: "IntervalNode \<Rightarrow> bool" where
  "isEmpty t \<longleftrightarrow> t = Leaf"

text \<open>Modelled from the spec: the later of two places, for the tracked maximum end.\<close>

definition maxPlace :: "NormalizedPlace \<Rightarrow> NormalizedPlace \<Rightarrow> NormalizedPlace" where
  "maxPlace a b = (if comparePlaces a b < 0 then b else a)"

text \<open>
  Modelled from the spec: the later of a place and the maximum end tracked by a subtree, if
  the subtree has a node.
\<close>

fun withSubtreeMax :: "NormalizedPlace \<Rightarrow> IntervalNode \<Rightarrow> NormalizedPlace" where
  "withSubtreeMax p Leaf = p"
| "withSubtreeMax p (Node l k m r) = maxPlace p m"

text \<open>
  Modelled from the spec: a node over two subtrees, its maximum end recomputed from its own
  interval and from what the subtrees track.
\<close>

definition mkNode :: "IntervalNode \<Rightarrow> Interval \<Rightarrow> IntervalNode \<Rightarrow> IntervalNode" where
  "mkNode l k r = Node l k (withSubtreeMax (withSubtreeMax (endPlace k) l) r) r"

text \<open>
  Modelled from the spec: \<^verbatim>\<open>put\<close> is missing. It places the interval by \<open>compare\<close>;
  a tie always goes to the right.
\<close>

fun put :: "Interval \<Rightarrow> IntervalNode \<Rightarrow> IntervalNode" where
  "put x Leaf = mkNode Leaf x Leaf"
| "put x (Node l k m r) =
     (if compare x k < 0 then mkNode (put x l) k r else mkNode l k (put x r))"

text \<open>
  Modelled from the spec: the stored intervals in the order of an in-order traversal, the
  reference for what a traversal visits.
\<close>

fun inorder :: "IntervalNode \<Rightarrow> Interval list" where
  "inorder Leaf = []"
| "inorder (Node l k m r) = inorder l @ k # inorder r"

text \<open>
  Modelled from the spec: \<^verbatim>\<open>map\<close> of the tree is missing (named \<open>mapForward\<close> here,
  \<open>map\<close> being taken). It visits every stored interval once, ascending. The visitor of the
  source pushes onto an array; here it transforms a state.
\<close>

fun mapForward :: "(Interval \<Rightarrow> 's \<Rightarrow> 's) \<Rightarrow> IntervalNode \<Rightarrow> 's \<Rightarrow> 's" where
  "mapForward fn Leaf s = s"
| "mapForward fn (Node l k m r) s = mapForward fn r (fn k (mapForward fn l s))"

text \<open>
  Modelled from the spec: \<^verbatim>\<open>mapBackward\<close> is missing. It visits every stored interval
  once, descending.
\<close>

fun mapBackward :: "(Interval \<Rightarrow> 's \<Rightarrow> 's) \<Rightarrow> IntervalNode \<Rightarrow> 's \<Rightarrow> 's" where
  "mapBackward fn Leaf s = s"
| "mapBackward fn (Node l k m r) s = mapBackward fn l (fn k (mapBackward fn r s))"

text \<open>
  Modelled from the spec: the pruned walk \<^verbatim>\<open>walkExactMatchesForward\<close> of the underlying
  tree is missing. At each node the comparison result is computed once; the walk descends left
  only if \<open>continueLeftFn\<close> holds of it and right only if \<open>continueRightFn\<close> does, and acts on
  the node when it lies in the match window, read here as the exact match (result \<open>0\<close>) that
  the name of the walk refers to.
\<close>

fun walkExactMatchesForward ::
  "(IntervalNode \<Rightarrow> int) \<Rightarrow> (IntervalNode \<Rightarrow> 's \<Rightarrow> 's) \<Rightarrow> (int \<Rightarrow> bool) \<Rightarrow> (int \<Rightarrow> bool) \<Rightarrow>
   IntervalNode \<Rightarrow> 's \<Rightarrow> 's" where
  "walkExactMatchesForward compareFn actionFn continueLeftFn continueRightFn Leaf s = s"
| "walkExactMatchesForward compareFn actionFn continueLeftFn continueRightFn (Node l k m r) s =
     (let result = compareFn (Node l k m r);
          s1 = (if continueLeftFn result
                then walkExactMatchesForward compareFn actionFn continueLeftFn continueRightFn l s
                else s);
          s2 = (if result = 0 then actionFn (Node l k m r) s1 else s1)
      in if continueRightFn result
         then walkExactMatchesForward compareFn actionFn continueLeftFn continueRightFn r s2
         else s2)"

text \<open>
  Modelled from the spec: \<^verbatim>\<open>walkExactMatchesBackward\<close> is missing. It is the same walk
  from right to left.
\<close>

fun walkExactMatchesBackward ::
  "(IntervalNode \<Rightarrow> int) \<Rightarrow> (IntervalNode \<Rightarrow> 's \<Rightarrow> 's) \<Rightarrow> (int \<Rightarrow> bool) \<Rightarrow> (int \<Rightarrow> bool) \<Rightarrow>
   IntervalNode \<Rightarrow> 's \<Rightarrow> 's" where
  "walkExactMatchesBackward compareFn actionFn continueLeftFn continueRightFn Leaf s = s"
| "walkExactMatchesBackward compareFn actionFn continueLeftFn continueRightFn (Node l k m r) s =
     (let result = compareFn (Node l k m r);
          s1 = (if continueRightFn result
                then walkExactMatchesBackward compareFn actionFn continueLeftFn continueRightFn r s
                else s);
          s2 = (if result = 0 then actionFn (Node l k m r) s1 else s1)
      in if continueLeftFn result
         then walkExactMatchesBackward compareFn actionFn continueLeftFn continueRightFn l s2
         else s2)"

text \<open>
  Modelled from the spec: \<^verbatim>\<open>match\<close>, the overlap search, is missing. It returns the nodes
  whose interval overlaps the probe, in order, and prunes: a subtree whose maximum end lies
  before the start of the probe is skipped, and the right subtree is skipped when the start of
  the node already lies after the end of the probe.
\<close>

fun match :: "Interval \<Rightarrow> IntervalNode \<Rightarrow> IntervalNode list" where
  "match q Leaf = []"
| "match q (Node l k m r) =
     (if comparePlaces m (startPlace q) < 0 then []
      else match q l
           @ (if overlaps k q then [Node l k m r] else [])
           @ (if comparePlaces (startPlace k) (endPlace q) \<le> 0 then match q r else []))"

text \<open>
  Modelled from the spec: the error of a caller who removes an interval that is not stored.
\<close>

datatype IndexError = RemoveNonExistent

text \<open>
  Modelled from the spec: the tree of the nodes of two trees, the first before the second;
  it closes the gap a removed node leaves.
\<close>

fun joinTrees :: "IntervalNode \<Rightarrow> IntervalNode \<Rightarrow> IntervalNode" where
  "joinTrees Leaf r = r"
| "joinTrees (Node ll lk lm lr) r = mkNode ll lk (joinTrees lr r)"

text \<open>
  Modelled from the spec: removal by identity. The node is looked for along \<open>compare\<close>, and
  among the intervals that tie with it under \<open>compare\<close> by its identity; the result is
  \<open>None\<close> when no node bears the identity.
\<close>

fun removeNode :: "Interval \<Rightarrow> IntervalNode \<Rightarrow> IntervalNode option" where
  "removeNode x Leaf = None"
| "removeNode x (Node l k m r) =
     (if compare x k < 0 then map_option (\<lambda>l'. mkNode l' k r) (removeNode x l)
      else if compare x k > 0 then map_option (\<lambda>r'. mkNode l k r') (removeNode x r)
      else if ident k = ident x then Some (joinTrees l r)
      else (case removeNode x l of
              Some l' \<Rightarrow> Some (mkNode l' k r)
            | None \<Rightarrow> map_option (\<lambda>r'. mkNode l k r') (removeNode x r)))"

text \<open>
  Modelled from the spec: \<^verbatim>\<open>removeExisting\<close> (\<^verbatim>\<open>intervalTree.ts\<close>) is missing.
  Removing an interval that was never added, or was removed already, is a misuse by the caller
  that fails loudly with a distinct error (sections 4.4 and 7 of the specification) instead of
  doing nothing.
\<close>

definition removeExisting :: "Interval \<Rightarrow> IntervalNode \<Rightarrow> IndexError + IntervalNode" where
  "removeExisting x t = (case removeNode x t of None \<Rightarrow> Inl RemoveNonExistent | Some t' \<Rightarrow> Inr t')"

section \<open>The overlap index\<close>

text \<open>
  The state of the index is its interval tree. The calls a query makes on the interval tree and
  on \<^verbatim>\<open>helpers.create\<close> are recorded, so that a statement such as ``the tree is not
  consulted'' or ``no probe is built'' can be made. An outcome holds what the method produced
  (the returned array, or the \<^verbatim>\<open>results\<close> array after the call), the tree after the call
  and the calls made, in order.
\<close>

datatype Call =
  IsEmptyCall
| CreateCall SequencePlace SequencePlace IntervalType
| MatchCall
| MapCall
| MapBackwardCall
| WalkForwardCall
| WalkBackwardCall

record Outcome =
  produced :: "Interval list"
  treeAfter :: IntervalNode
  calls :: "Call list"

text \<open>
  The callback of the traversals, \<^verbatim>\<open>results.push(interval)\<close>.
\<close>

definition pushInterval :: "Interval \<Rightarrow> Interval list \<Rightarrow> Interval list" where
  "pushInterval interval results = results @ [interval]"

text \<open>
  \<^verbatim>\<open>gatherIterationResults\<close>, lines 65 to 145 of the source. An absent \<^verbatim>\<open>start\<close> or
  \<^verbatim>\<open>end\<close> is \<open>None\<close>.
\<close>

definition gatherIterationResults ::
  "IntervalNode \<Rightarrow> Interval list \<Rightarrow> bool \<Rightarrow> SequencePlace option \<Rightarrow> SequencePlace option \<Rightarrow> Outcome"
  where
  "gatherIterationResults intervalTree results iteratesForward start end' =
     (if isEmpty intervalTree
      then \<lparr>produced = results, treeAfter = intervalTree, calls = [IsEmptyCall]\<rparr>
      else if start = None \<and> end' = None
      then
        (if iteratesForward
         then \<lparr>produced = mapForward pushInterval intervalTree results,
               treeAfter = intervalTree, calls = [IsEmptyCall, MapCall]\<rparr>
         else \<lparr>produced = mapBackward pushInterval intervalTree results,
               treeAfter = intervalTree, calls = [IsEmptyCall, MapBackwardCall]\<rparr>)
      else
        let startArg = (case start of None \<Rightarrow> SeqStart | Some s \<Rightarrow> s);
            endArg = (case end' of None \<Rightarrow> SeqEnd | Some e \<Rightarrow> e);
            transientInterval = create ''transient'' startArg endArg Transient;
            created = CreateCall startArg endArg Transient
        in if start = None
           then
             let visit = (\<lambda>interval rs.
                    if compareEnd transientInterval interval = 0 then pushInterval interval rs
                    else rs)
             in if iteratesForward
                then \<lparr>produced = mapForward visit intervalTree results,
                      treeAfter = intervalTree, calls = [IsEmptyCall, created, MapCall]\<rparr>
                else \<lparr>produced = mapBackward visit intervalTree results,
                      treeAfter = intervalTree, calls = [IsEmptyCall, created, MapBackwardCall]\<rparr>
           else
             let compareFn =
                   (if end' = None
                    then (\<lambda>node. compareStart transientInterval (key node))
                    else (\<lambda>node. compare transientInterval (key node)));
                 continueLeftFn = (\<lambda>cmpResult. cmpResult \<le> 0);
                 continueRightFn = (\<lambda>cmpResult. cmpResult \<ge> 0);
                 actionFn = (\<lambda>node rs. pushInterval (key node) rs)
             in if iteratesForward
                then \<lparr>produced = walkExactMatchesForward compareFn actionFn continueLeftFn
                                 continueRightFn intervalTree results,
                      treeAfter = intervalTree, calls = [IsEmptyCall, created, WalkForwardCall]\<rparr>
                else \<lparr>produced = walkExactMatchesBackward compareFn actionFn continueLeftFn
                                 continueRightFn intervalTree results,
                      treeAfter = intervalTree, calls = [IsEmptyCall, created, WalkBackwardCall]\<rparr>)"

text \<open>
  The inversion test of \<^verbatim>\<open>findOverlappingIntervals\<close>, lines 151 to 158 of the source.
\<close>

definition invertedSearchInterval :: "int \<Rightarrow> Side \<Rightarrow> int \<Rightarrow> Side \<Rightarrow> bool" where
  "invertedSearchInterval startPos startSide endPos endSide \<longleftrightarrow>
     (startPos \<noteq> - 1 \<and> endPos \<noteq> - 1 \<and> endPos < startPos) \<or>
     (startPos = - 1 \<and> startSide = Before \<and> \<not> (endPos = - 1 \<and> endSide = Before)) \<or>
     (endPos = - 1 \<and> endSide = After \<and> \<not> (startPos = - 1 \<and> startSide = After))"

text \<open>
  \<^verbatim>\<open>findOverlappingIntervals\<close>, lines 147 to 175. The disjunction of line 159 evaluates
  its second operand, the emptiness test, only when the first is false.
\<close>

definition findOverlappingIntervals ::
  "IntervalNode \<Rightarrow> SequencePlace \<Rightarrow> SequencePlace \<Rightarrow> Outcome" where
  "findOverlappingIntervals intervalTree start end' =
     (let s = normalizeSequencePlace start;
          e = normalizeSequencePlace end'
      in if invertedSearchInterval (pos s) (side s) (pos e) (side e)
         then \<lparr>produced = [], treeAfter = intervalTree, calls = []\<rparr>
         else if isEmpty intervalTree
         then \<lparr>produced = [], treeAfter = intervalTree, calls = [IsEmptyCall]\<rparr>
         else
           let transientInterval = create ''transient'' start end' Transient;
               overlappingIntervalNodes = match transientInterval intervalTree
           in \<lparr>produced = map key overlappingIntervalNodes, treeAfter = intervalTree,
               calls = [IsEmptyCall, CreateCall start end' Transient, MatchCall]\<rparr>)"

text \<open>
  \<^verbatim>\<open>remove\<close>, lines 177 to 179: it delegates to the tree and catches nothing, so an error
  of \<^verbatim>\<open>removeExisting\<close> is the error of \<^verbatim>\<open>remove\<close>.
\<close>

definition remove :: "IntervalNode \<Rightarrow> Interval \<Rightarrow> IndexError + IntervalNode" where
  "remove intervalTree interval = removeExisting interval intervalTree"

text \<open>\<^verbatim>\<open>add\<close>, lines 181 to 183.\<close>

definition add :: "IntervalNode \<Rightarrow> Interval \<Rightarrow> IntervalNode" where
  "add intervalTree interval = put interval intervalTree"

section \<open>Invariants and auxiliary notions\<close>

text \<open>
  The key of an interval under \<open>compare\<close>: the pair of the keys of its endpoints, in
  lexicographic order.
\<close>

definition intervalKey :: "Interval \<Rightarrow> (int \<times> int \<times> int) \<times> (int \<times> int \<times> int)" where
  "intervalKey i = (placeKey (startPlace i), placeKey (endPlace i))"

text \<open>
  The ordering invariant of the tree: at every node, what is stored to the left is not after
  the node under \<open>compare\<close>, and what is stored to the right is not before it.
\<close>

fun ordered :: "IntervalNode \<Rightarrow> bool" where
  "ordered Leaf = True"
| "ordered (Node l k m r) \<longleftrightarrow>
     ordered l \<and> ordered r \<and>
     (\<forall>x \<in> set (inorder l). compare x k \<le> 0) \<and> (\<forall>x \<in> set (inorder r). compare k x \<le> 0)"

text \<open>The invariant of the tracked maximum end.\<close>

fun maxEndOk :: "IntervalNode \<Rightarrow> bool" where
  "maxEndOk Leaf = True"
| "maxEndOk (Node l k m r) \<longleftrightarrow>
     maxEndOk l \<and> maxEndOk r \<and> m = withSubtreeMax (withSubtreeMax (endPlace k) l) r"

definition treeInvariant :: "IntervalNode \<Rightarrow> bool" where
  "treeInvariant t \<longleftrightarrow> ordered t \<and> maxEndOk t"

text \<open>The nodes a pruned walk acts on, in the order of a forward walk.\<close>

fun visitedForward ::
  "(IntervalNode \<Rightarrow> int) \<Rightarrow> (int \<Rightarrow> bool) \<Rightarrow> (int \<Rightarrow> bool) \<Rightarrow> IntervalNode \<Rightarrow> IntervalNode list"
  where
  "visitedForward compareFn continueLeftFn continueRightFn Leaf = []"
| "visitedForward compareFn continueLeftFn continueRightFn (Node l k m r) =
     (if continueLeftFn (compareFn (Node l k m r))
      then visitedForward compareFn continueLeftFn continueRightFn l else [])
     @ (if compareFn (Node l k m r) = 0 then [Node l k m r] else [])
     @ (if continueRightFn (compareFn (Node l k m r))
        then visitedForward compareFn continueLeftFn continueRightFn r else [])"

text \<open>The identities stored in a tree, with multiplicity.\<close>

definition storedIds :: "IntervalNode \<Rightarrow> string multiset" where
  "storedIds t = mset (map ident (inorder t))"

text \<open>
  The intervals \<open>[1,3]\<close>, \<open>[4,6]\<close> and \<open>[2,5]\<close> of the specification's second scenario,
  and the tree they make when added in that order.
\<close>

definition exampleA :: Interval where
  "exampleA = \<lparr>ident = ''a'', startPlace = \<lparr>pos = 1, side = Before\<rparr>,
      endPlace = \<lparr>pos = 3, side = Before\<rparr>, kind = Persistent\<rparr>"

definition exampleB :: Interval where
  "exampleB = \<lparr>ident = ''b'', startPlace = \<lparr>pos = 4, side = Before\<rparr>,
      endPlace = \<lparr>pos = 6, side = Before\<rparr>, kind = Persistent\<rparr>"

definition exampleC :: Interval where
  "exampleC = \<lparr>ident = ''c'', startPlace = \<lparr>pos = 2, side = Before\<rparr>,
      endPlace = \<lparr>pos = 5, side = Before\<rparr>, kind = Persistent\<rparr>"

definition exampleTree :: IntervalNode where
  "exampleTree = foldl add Leaf [exampleA, exampleB, exampleC]"

section \<open>Properties of the model\<close>

lemma placeKey_inj: "placeKey a = placeKey b \<longleftrightarrow> a = b"
  by (cases a; cases b; cases "side a"; cases "side b")
     (auto simp: placeKey_def split: if_splits)

lemma comparePlaces_less: "comparePlaces a b < 0 \<longleftrightarrow> placeKey a < placeKey b"
  by (simp add: comparePlaces_def)

lemma comparePlaces_le: "comparePlaces a b \<le> 0 \<longleftrightarrow> placeKey a \<le> placeKey b"
  by (auto simp: comparePlaces_def)

lemma comparePlaces_eq: "comparePlaces a b = 0 \<longleftrightarrow> a = b"
  by (auto simp: comparePlaces_def placeKey_inj)

lemma comparePlaces_ge: "comparePlaces a b \<ge> 0 \<longleftrightarrow> placeKey b \<le> placeKey a"
  by (auto simp: comparePlaces_def)

lemma compare_le: "compare a b \<le> 0 \<longleftrightarrow> intervalKey a \<le> intervalKey b"
  by (auto simp: compare_def compareStart_def compareEnd_def intervalKey_def comparePlaces_def Let_def)

lemma compare_less: "compare a b < 0 \<longleftrightarrow> intervalKey a < intervalKey b"
  by (auto simp: compare_def compareStart_def compareEnd_def intervalKey_def comparePlaces_def Let_def)

lemma compare_ge: "compare a b \<ge> 0 \<longleftrightarrow> intervalKey b \<le> intervalKey a"
  by (auto simp: compare_def compareStart_def compareEnd_def intervalKey_def comparePlaces_def Let_def)

lemma compare_eq: "compare a b = 0 \<longleftrightarrow> intervalKey a = intervalKey b"
  by (auto simp: compare_def compareStart_def compareEnd_def intervalKey_def comparePlaces_def Let_def)

lemma inorder_mkNode: "inorder (mkNode l k r) = inorder l @ k # inorder r"
  by (simp add: mkNode_def)

lemma mset_inorder_put: "mset (inorder (put x t)) = add_mset x (mset (inorder t))"
  by (induction t) (auto simp: inorder_mkNode)

lemma set_inorder_put: "set (inorder (put x t)) = insert x (set (inorder t))"
  by (induction t) (auto simp: inorder_mkNode)

lemma ordered_put: "ordered t \<Longrightarrow> ordered (put x t)"
proof (induction t)
  case Leaf
  show ?case by (simp add: mkNode_def)
next
  case (Node l k m r)
  show ?case
  proof (cases "compare x k < 0")
    case True
    then have "compare x k \<le> 0" by simp
    with Node True show ?thesis
      by (auto simp: mkNode_def set_inorder_put)
  next
    case False
    then have "compare k x \<le> 0"
      by (simp add: compare_le compare_less not_less)
    with Node False show ?thesis
      by (auto simp: mkNode_def set_inorder_put)
  qed
qed

lemma maxEndOk_mkNode: "maxEndOk l \<Longrightarrow> maxEndOk r \<Longrightarrow> maxEndOk (mkNode l k r)"
  by (simp add: mkNode_def)

lemma maxEndOk_put: "maxEndOk t \<Longrightarrow> maxEndOk (put x t)"
  by (induction t) (auto simp: maxEndOk_mkNode)

lemma maxPlace_key: "placeKey (maxPlace a b) = max (placeKey a) (placeKey b)"
  by (auto simp: maxPlace_def comparePlaces_less max_def)

lemma withSubtreeMax_ge: "placeKey p \<le> placeKey (withSubtreeMax p t)"
  by (cases t) (simp_all add: maxPlace_key)

lemma withSubtreeMax_node: "placeKey m \<le> placeKey (withSubtreeMax p (Node l k m r))"
  by (simp add: maxPlace_key)

lemma maxEnd_bound:
  "maxEndOk t \<Longrightarrow> x \<in> set (inorder t) \<Longrightarrow> placeKey (endPlace x) \<le> placeKey (maxEnd t)"
proof (induction t)
  case Leaf
  then show ?case by simp
next
  case (Node l k m r)
  from Node.prems have m: "m = withSubtreeMax (withSubtreeMax (endPlace k) l) r"
    and okl: "maxEndOk l" and okr: "maxEndOk r" by simp_all
  from Node.prems(2) consider "x \<in> set (inorder l)" | "x = k" | "x \<in> set (inorder r)"
    by auto
  then show ?case
  proof cases
    case 1
    then obtain ll lk lm lr where l: "l = Node ll lk lm lr" by (cases l) auto
    from Node.IH(1) [OF okl 1] l have "placeKey (endPlace x) \<le> placeKey lm" by simp
    also have "\<dots> \<le> placeKey (withSubtreeMax (endPlace k) l)"
      unfolding l by (rule withSubtreeMax_node)
    also have "\<dots> \<le> placeKey m" unfolding m by (rule withSubtreeMax_ge)
    finally show ?thesis by simp
  next
    case 2
    have "placeKey (endPlace k) \<le> placeKey (withSubtreeMax (endPlace k) l)"
      by (rule withSubtreeMax_ge)
    also have "\<dots> \<le> placeKey m" unfolding m by (rule withSubtreeMax_ge)
    finally show ?thesis using 2 by simp
  next
    case 3
    then obtain rl rk rm rr where r: "r = Node rl rk rm rr" by (cases r) auto
    from Node.IH(2) [OF okr 3] r have "placeKey (endPlace x) \<le> placeKey rm" by simp
    also have "\<dots> \<le> placeKey m" unfolding m r by (rule withSubtreeMax_node)
    finally show ?thesis by simp
  qed
qed

lemma keys_match: "set (map key (match q t)) \<subseteq> set (inorder t)"
  by (induction t) auto

lemma startKey_mono: "compare a b \<le> 0 \<Longrightarrow> placeKey (startPlace a) \<le> placeKey (startPlace b)"
  by (auto simp: compare_le intervalKey_def)

lemma match_filter:
  "treeInvariant t \<Longrightarrow> map key (match q t) = filter (\<lambda>i. overlaps i q) (inorder t)"
proof (induction t)
  case Leaf
  show ?case by simp
next
  case (Node l k m r)
  from Node.prems have inv: "treeInvariant l" "treeInvariant r"
    and ok: "maxEndOk (Node l k m r)"
    and right: "\<forall>x \<in> set (inorder r). compare k x \<le> 0"
    by (simp_all add: treeInvariant_def)
  note IH = Node.IH(1) [OF inv(1)] Node.IH(2) [OF inv(2)]
  show ?case
  proof (cases "comparePlaces m (startPlace q) < 0")
    case True
    have "\<not> overlaps x q" if "x \<in> set (inorder (Node l k m r))" for x
    proof -
      from maxEnd_bound [OF ok that] have "placeKey (endPlace x) \<le> placeKey m" by simp
      with True have "placeKey (endPlace x) < placeKey (startPlace q)"
        by (simp add: comparePlaces_less)
      then show ?thesis by (auto simp: overlaps_def comparePlaces_ge)
    qed
    then have "filter (\<lambda>i. overlaps i q) (inorder (Node l k m r)) = []"
      by (simp only: filter_empty_conv) blast
    with True show ?thesis by simp
  next
    case False
    show ?thesis
    proof (cases "comparePlaces (startPlace k) (endPlace q) \<le> 0")
      case True
      with False IH show ?thesis by simp
    next
      case far: False
      have "\<not> overlaps x q" if "x \<in> set (inorder r)" for x
      proof -
        from right that have "placeKey (startPlace k) \<le> placeKey (startPlace x)"
          by (simp add: startKey_mono)
        with far have "\<not> placeKey (startPlace x) \<le> placeKey (endPlace q)"
          by (auto simp: comparePlaces_le)
        then show ?thesis by (simp add: overlaps_def comparePlaces_le)
      qed
      then have "filter (\<lambda>i. overlaps i q) (inorder r) = []"
        by (simp only: filter_empty_conv) blast
      moreover from far have "\<not> overlaps k q" by (simp add: overlaps_def)
      ultimately show ?thesis using False far IH by simp
    qed
  qed
qed

lemma mapForward_push: "mapForward pushInterval t rs = rs @ inorder t"
  by (induction t arbitrary: rs) (simp_all add: pushInterval_def)

lemma mapBackward_push: "mapBackward pushInterval t rs = rs @ rev (inorder t)"
  by (induction t arbitrary: rs) (simp_all add: pushInterval_def)

lemma mapForward_filter:
  "mapForward (\<lambda>i rs. if P i then pushInterval i rs else rs) t rs = rs @ filter P (inorder t)"
  by (induction t arbitrary: rs) (simp_all add: pushInterval_def)

lemma mapBackward_filter:
  "mapBackward (\<lambda>i rs. if P i then pushInterval i rs else rs) t rs
     = rs @ filter P (rev (inorder t))"
  by (induction t arbitrary: rs) (simp_all add: pushInterval_def)

lemma compare_trans: "compare a b \<le> 0 \<Longrightarrow> compare b c \<le> 0 \<Longrightarrow> compare a c \<le> 0"
  unfolding compare_le by (rule order_trans)

lemma sorted_inorder: "ordered t \<Longrightarrow> sorted_wrt (\<lambda>a b. compare a b \<le> 0) (inorder t)"
proof (induction t)
  case Leaf
  show ?case by simp
next
  case (Node l k m r)
  then show ?case
    by (auto simp: sorted_wrt_append intro: compare_trans)
qed

lemma sorted_rev_inorder: "ordered t \<Longrightarrow> sorted_wrt (\<lambda>a b. compare b a \<le> 0) (rev (inorder t))"
  by (simp add: sorted_wrt_rev sorted_inorder)

lemma walkForward_fold:
  "walkExactMatchesForward c a cl cr t s = fold a (visitedForward c cl cr t) s"
  by (induction t arbitrary: s) (simp_all add: Let_def)

lemma walkBackward_fold:
  "walkExactMatchesBackward c a cl cr t s = fold a (rev (visitedForward c cl cr t)) s"
  by (induction t arbitrary: s) (simp_all add: Let_def)

lemma fold_push: "fold (\<lambda>node rs. pushInterval (key node) rs) ns rs = rs @ map key ns"
  by (induction ns arbitrary: rs) (simp_all add: pushInterval_def)

lemma visited_exact:
  fixes f :: "Interval \<Rightarrow> 'k::linorder"
  assumes mono: "\<And>a b. compare a b \<le> 0 \<Longrightarrow> f a \<le> f b"
    and le: "\<And>node. c node \<le> 0 \<longleftrightarrow> v \<le> f (key node)"
    and ge: "\<And>node. c node \<ge> 0 \<longleftrightarrow> f (key node) \<le> v"
  shows "ordered t \<Longrightarrow>
    map key (visitedForward c (\<lambda>r. r \<le> 0) (\<lambda>r. r \<ge> 0) t) = filter (\<lambda>i. f i = v) (inorder t)"
proof (induction t)
  case Leaf
  show ?case by simp
next
  case (Node l k m r)
  let ?n = "Node l k m r"
  from Node.prems have ol: "ordered l" and or: "ordered r"
    and left: "\<And>x. x \<in> set (inorder l) \<Longrightarrow> f x \<le> f k"
    and right: "\<And>x. x \<in> set (inorder r) \<Longrightarrow> f k \<le> f x"
    by (auto intro: mono)
  have zero: "c ?n = 0 \<longleftrightarrow> f k = v"
    using le [of ?n] ge [of ?n] by auto
  have skipL: "filter (\<lambda>i. f i = v) (inorder l) = []" if "\<not> c ?n \<le> 0"
  proof -
    from that le [of ?n] have "f k < v" by simp
    with left have "f x \<noteq> v" if "x \<in> set (inorder l)" for x
      using that by fastforce
    then show ?thesis by (simp only: filter_empty_conv) blast
  qed
  have skipR: "filter (\<lambda>i. f i = v) (inorder r) = []" if "\<not> c ?n \<ge> 0"
  proof -
    from that ge [of ?n] have "v < f k" by simp
    with right have "f x \<noteq> v" if "x \<in> set (inorder r)" for x
      using that by fastforce
    then show ?thesis by (simp only: filter_empty_conv) blast
  qed
  show ?case
    using Node.IH(1) [OF ol] Node.IH(2) [OF or] zero skipL skipR
    by (cases "c ?n \<le> 0"; cases "c ?n \<ge> 0") simp_all
qed

lemma visited_compareStart:
  "ordered t \<Longrightarrow>
   map key (visitedForward (\<lambda>node. compareStart q (key node)) (\<lambda>r. r \<le> 0) (\<lambda>r. r \<ge> 0) t)
     = filter (\<lambda>i. startPlace i = startPlace q) (inorder t)"
proof -
  assume o: "ordered t"
  have "map key (visitedForward (\<lambda>node. compareStart q (key node)) (\<lambda>r. r \<le> 0) (\<lambda>r. r \<ge> 0) t)
     = filter (\<lambda>i. placeKey (startPlace i) = placeKey (startPlace q)) (inorder t)"
    by (rule visited_exact [OF _ _ _ o])
       (simp_all add: startKey_mono compareStart_def comparePlaces_le comparePlaces_ge)
  then show ?thesis by (simp add: placeKey_inj)
qed

lemma intervalKey_eq:
  "intervalKey i = intervalKey q \<longleftrightarrow> startPlace i = startPlace q \<and> endPlace i = endPlace q"
  by (simp add: intervalKey_def placeKey_inj)

lemma visited_compare:
  "ordered t \<Longrightarrow>
   map key (visitedForward (\<lambda>node. compare q (key node)) (\<lambda>r. r \<le> 0) (\<lambda>r. r \<ge> 0) t)
     = filter (\<lambda>i. startPlace i = startPlace q \<and> endPlace i = endPlace q) (inorder t)"
proof -
  assume o: "ordered t"
  have "map key (visitedForward (\<lambda>node. compare q (key node)) (\<lambda>r. r \<le> 0) (\<lambda>r. r \<ge> 0) t)
     = filter (\<lambda>i. intervalKey i = intervalKey q) (inorder t)"
    by (rule visited_exact [OF _ _ _ o]) (simp_all add: compare_le compare_ge)
  then show ?thesis by (simp add: intervalKey_eq)
qed

lemma not_inverted:
  assumes "comparePlaces (normalizeSequencePlace a) (normalizeSequencePlace b) \<le> 0"
  shows "\<not> invertedSearchInterval (pos (normalizeSequencePlace a)) (side (normalizeSequencePlace a))
           (pos (normalizeSequencePlace b)) (side (normalizeSequencePlace b))"
  using assms
  by (cases "side (normalizeSequencePlace a)"; cases "side (normalizeSequencePlace b)")
     (auto simp: comparePlaces_le placeKey_def invertedSearchInterval_def split: if_splits)

lemma inorder_joinTrees: "inorder (joinTrees l r) = inorder l @ inorder r"
  by (induction l) (simp_all add: inorder_mkNode)

lemma removeNode_absent: "ident x \<notin> ident ` set (inorder t) \<Longrightarrow> removeNode x t = None"
  by (induction t) (auto simp: image_Un)

lemma removeNode_ids:
  "removeNode x t = Some t' \<Longrightarrow> storedIds t = add_mset (ident x) (storedIds t')"
proof (induction t arbitrary: t')
  case Leaf
  then show ?case by simp
next
  case (Node l k m r)
  then show ?case
    by (auto simp: storedIds_def inorder_mkNode inorder_joinTrees
        split: if_splits option.splits)
qed

lemma remove_twice:
  assumes "remove t x = Inr t'" and "count (storedIds t) (ident x) = 1"
  shows "remove t' x = Inl RemoveNonExistent"
proof -
  from assms(1) have "removeNode x t = Some t'"
    by (auto simp: remove_def removeExisting_def split: option.splits)
  from removeNode_ids [OF this] assms(2) have "count (storedIds t') (ident x) = 0"
    by simp
  then have "ident x \<notin> ident ` set (inorder t')"
    by (simp add: storedIds_def count_eq_zero_iff)
  from removeNode_absent [OF this] show ?thesis
    by (simp add: remove_def removeExisting_def)
qed

lemma ordered_mkNode_iff:
  "ordered (mkNode l k r) \<longleftrightarrow>
     ordered l \<and> ordered r \<and>
     (\<forall>x \<in> set (inorder l). compare x k \<le> 0) \<and> (\<forall>x \<in> set (inorder r). compare k x \<le> 0)"
  by (simp add: mkNode_def)

lemma ordered_joinTrees:
  "ordered l \<Longrightarrow> ordered r \<Longrightarrow>
   (\<forall>x \<in> set (inorder l). \<forall>y \<in> set (inorder r). compare x y \<le> 0) \<Longrightarrow> ordered (joinTrees l r)"
proof (induction l)
  case Leaf
  then show ?case by simp
next
  case (Node ll lk lm lr)
  from Node.prems have "ordered (joinTrees lr r)"
    by (intro Node.IH(2)) auto
  with Node.prems show ?case
    by (auto simp: ordered_mkNode_iff inorder_joinTrees)
qed

lemma mset_removeNode:
  "removeNode x t = Some t' \<Longrightarrow> \<exists>y. ident y = ident x \<and> mset (inorder t) = add_mset y (mset (inorder t'))"
proof (induction t arbitrary: t')
  case Leaf
  then show ?case by simp
next
  case (Node l k m r)
  show ?case
  proof (cases "removeNode x l")
    case None
    note noL = this
    show ?thesis
    proof (cases "removeNode x r")
      case None
      with noL Node.prems have "ident k = ident x" and "t' = joinTrees l r"
        by (auto split: if_splits)
      then show ?thesis by (auto simp: inorder_joinTrees)
    next
      case (Some r')
      from Node.IH(2) [OF Some] obtain y where
        y: "ident y = ident x" "mset (inorder r) = add_mset y (mset (inorder r'))" by blast
      from noL Some Node.prems consider "t' = joinTrees l r" "ident k = ident x"
        | "t' = mkNode l k r'"
        by (auto split: if_splits)
      then show ?thesis
      proof cases
        case 1
        then show ?thesis by (auto simp: inorder_joinTrees)
      next
        case 2
        with y show ?thesis by (auto simp: inorder_mkNode)
      qed
    qed
  next
    case (Some l')
    from Node.IH(1) [OF Some] obtain y where
      y: "ident y = ident x" "mset (inorder l) = add_mset y (mset (inorder l'))" by blast
    from Some Node.prems consider "t' = joinTrees l r" "ident k = ident x"
      | "t' = mkNode l' k r"
      | r' where "removeNode x r = Some r'" "t' = mkNode l k r'"
      by (auto split: if_splits)
    then show ?thesis
    proof cases
      case 1
      then show ?thesis by (auto simp: inorder_joinTrees)
    next
      case 2
      with y show ?thesis by (auto simp: inorder_mkNode)
    next
      case 3
      from Node.IH(2) [OF 3(1)] obtain z where
        "ident z = ident x" "mset (inorder r) = add_mset z (mset (inorder r'))" by blast
      with 3 show ?thesis by (auto simp: inorder_mkNode)
    qed
  qed
qed

lemma set_removeNode: "removeNode x t = Some t' \<Longrightarrow> set (inorder t') \<subseteq> set (inorder t)"
proof -
  assume "removeNode x t = Some t'"
  from mset_removeNode [OF this] obtain y where
    "mset (inorder t) = add_mset y (mset (inorder t'))" by blast
  then have "set_mset (mset (inorder t)) = insert y (set_mset (mset (inorder t')))"
    by simp
  then show ?thesis by auto
qed

lemma removeNode_cases:
  assumes "removeNode x (Node l k m r) = Some t'"
  obtains "t' = joinTrees l r"
  | l' where "removeNode x l = Some l'" "t' = mkNode l' k r"
  | r' where "removeNode x r = Some r'" "t' = mkNode l k r'"
  using assms by (auto split: if_splits option.splits)

lemma ordered_removeNode: "ordered t \<Longrightarrow> removeNode x t = Some t' \<Longrightarrow> ordered t'"
proof (induction t arbitrary: t')
  case Leaf
  then show ?case by simp
next
  case (Node l k m r)
  from Node.prems(1) have o: "ordered l" "ordered r"
    and left: "\<forall>a \<in> set (inorder l). compare a k \<le> 0"
    and right: "\<forall>b \<in> set (inorder r). compare k b \<le> 0"
    by simp_all
  from Node.prems(2) show ?case
  proof (cases rule: removeNode_cases)
    case 1
    from left right have "\<forall>a \<in> set (inorder l). \<forall>b \<in> set (inorder r). compare a b \<le> 0"
      by (blast intro: compare_trans)
    with o 1 show ?thesis by (simp add: ordered_joinTrees)
  next
    case (2 l')
    from Node.IH(1) [OF o(1) 2(1)] have "ordered l'" .
    moreover from set_removeNode [OF 2(1)] left
    have "\<forall>a \<in> set (inorder l'). compare a k \<le> 0" by blast
    ultimately show ?thesis using 2(2) o(2) right by (simp add: ordered_mkNode_iff)
  next
    case (3 r')
    from Node.IH(2) [OF o(2) 3(1)] have "ordered r'" .
    moreover from set_removeNode [OF 3(1)] right
    have "\<forall>b \<in> set (inorder r'). compare k b \<le> 0" by blast
    ultimately show ?thesis using 3(2) o(1) left by (simp add: ordered_mkNode_iff)
  qed
qed

lemma maxEndOk_joinTrees: "maxEndOk l \<Longrightarrow> maxEndOk r \<Longrightarrow> maxEndOk (joinTrees l r)"
  by (induction l) (simp_all add: maxEndOk_mkNode)

lemma maxEndOk_removeNode: "maxEndOk t \<Longrightarrow> removeNode x t = Some t' \<Longrightarrow> maxEndOk t'"
proof (induction t arbitrary: t')
  case Leaf
  then show ?case by simp
next
  case (Node l k m r)
  from Node.prems(1) have ok: "maxEndOk l" "maxEndOk r" by simp_all
  from Node.prems(2) show ?case
  proof (cases rule: removeNode_cases)
    case 1
    with ok show ?thesis by (simp add: maxEndOk_joinTrees)
  next
    case (2 l')
    with Node.IH(1) [OF ok(1)] ok(2) show ?thesis by (simp add: maxEndOk_mkNode)
  next
    case (3 r')
    with Node.IH(2) [OF ok(2)] ok(1) show ?thesis by (simp add: maxEndOk_mkNode)
  qed
qed

lemma treeInvariant_add: "treeInvariant t \<Longrightarrow> treeInvariant (add t x)"
  by (simp add: add_def treeInvariant_def ordered_put maxEndOk_put)

lemma treeInvariant_remove: "treeInvariant t \<Longrightarrow> remove t x = Inr t' \<Longrightarrow> treeInvariant t'"
  by (auto simp: remove_def removeExisting_def treeInvariant_def split: option.splits
      intro: ordered_removeNode maxEndOk_removeNode)

lemma mset_inorder_built: "mset (inorder (foldl add Leaf xs)) = mset xs"
  by (induction xs rule: rev_induct) (simp_all add: add_def mset_inorder_put)

lemma treeInvariant_built: "treeInvariant (foldl add Leaf xs)"
  by (induction xs rule: rev_induct)
     (simp_all add: add_def treeInvariant_def ordered_put maxEndOk_put)

lemma overlaps_create:
  "overlaps i (create label a b ty) \<longleftrightarrow>
     comparePlaces (startPlace i) (normalizeSequencePlace b) \<le> 0 \<and>
     comparePlaces (endPlace i) (normalizeSequencePlace a) \<ge> 0"
  by (simp add: overlaps_def create_def)

lemma findOverlapping_filter:
  assumes "treeInvariant t"
    and "\<not> invertedSearchInterval (pos (normalizeSequencePlace a)) (side (normalizeSequencePlace a))
           (pos (normalizeSequencePlace b)) (side (normalizeSequencePlace b))"
  shows "produced (findOverlappingIntervals t a b)
     = filter (\<lambda>i. overlaps i (create ''transient'' a b Transient)) (inorder t)"
proof (cases "isEmpty t")
  case True
  with assms(2) show ?thesis
    by (simp add: findOverlappingIntervals_def isEmpty_def Let_def)
next
  case False
  with assms(2) show ?thesis
    by (simp add: findOverlappingIntervals_def Let_def match_filter [OF assms(1)])
qed

lemma keys_visited: "set (map key (visitedForward c cl cr t)) \<subseteq> set (inorder t)"
  by (induction t) auto

lemma produced_find_subset: "set (produced (findOverlappingIntervals t a b)) \<subseteq> set (inorder t)"
  using keys_match [of "create ''transient'' a b Transient" t]
  by (simp add: findOverlappingIntervals_def Let_def)

lemma gather_unfiltered:
  "produced (gatherIterationResults t rs fwd None None)
     = rs @ (if fwd then inorder t else rev (inorder t))"
proof (cases t)
  case Leaf
  then show ?thesis by (simp add: gatherIterationResults_def isEmpty_def)
next
  case (Node l k m r)
  then have "\<not> isEmpty t" by (simp add: isEmpty_def)
  then show ?thesis
    by (simp add: gatherIterationResults_def mapForward_push mapBackward_push)
qed

lemma put_not_Leaf: "put x t \<noteq> Leaf"
  by (cases t) (simp_all add: mkNode_def)

lemma exampleTree_not_empty: "\<not> isEmpty exampleTree"
  by (simp add: isEmpty_def exampleTree_def add_def put_not_Leaf)

lemma inorder_exampleTree: "inorder exampleTree = [exampleA, exampleC, exampleB]"
  unfolding exampleTree_def add_def exampleA_def exampleB_def exampleC_def
  by code_simp

lemma ordered_exampleTree: "ordered exampleTree"
  using treeInvariant_built [of "[exampleA, exampleB, exampleC]"]
  by (simp add: exampleTree_def treeInvariant_def)

lemma gather_end_filter:
  assumes "\<not> isEmpty t"
  shows "gatherIterationResults t rs fwd None (Some E) =
    \<lparr>produced = rs @ (if fwd
         then filter (\<lambda>i. compareEnd (create ''transient'' SeqStart E Transient) i = 0) (inorder t)
         else rev (filter (\<lambda>i. compareEnd (create ''transient'' SeqStart E Transient) i = 0) (inorder t))),
     treeAfter = t,
     calls = [IsEmptyCall, CreateCall SeqStart E Transient,
              if fwd then MapCall else MapBackwardCall]\<rparr>"
  using assms
  by (simp add: gatherIterationResults_def Let_def mapForward_filter mapBackward_filter rev_filter)

lemma gather_end_example:
  "produced (gatherIterationResults exampleTree [] False None (Some (Interior 5 Before))) = [exampleC]"
  unfolding exampleTree_def add_def exampleA_def exampleB_def exampleC_def
  by code_simp

lemma walkForward_push:
  "walkExactMatchesForward c (\<lambda>node rs. pushInterval (key node) rs) cl cr t rs
     = rs @ map key (visitedForward c cl cr t)"
  by (simp only: walkForward_fold fold_push)

lemma walkBackward_push:
  "walkExactMatchesBackward c (\<lambda>node rs. pushInterval (key node) rs) cl cr t rs
     = rs @ map key (rev (visitedForward c cl cr t))"
  by (simp only: walkBackward_fold fold_push)

lemma gather_start_unfold:
  assumes "\<not> isEmpty t"
  shows "gatherIterationResults t rs fwd (Some S) e =
    \<lparr>produced =
       (if fwd
        then walkExactMatchesForward
               (\<lambda>node. if e = None
                  then compareStart (create ''transient'' S (case e of None \<Rightarrow> SeqEnd | Some x \<Rightarrow> x) Transient) (key node)
                  else compare (create ''transient'' S (case e of None \<Rightarrow> SeqEnd | Some x \<Rightarrow> x) Transient) (key node))
               (\<lambda>node results. pushInterval (key node) results)
               (\<lambda>cmpResult. cmpResult \<le> 0) (\<lambda>cmpResult. cmpResult \<ge> 0) t rs
        else walkExactMatchesBackward
               (\<lambda>node. if e = None
                  then compareStart (create ''transient'' S (case e of None \<Rightarrow> SeqEnd | Some x \<Rightarrow> x) Transient) (key node)
                  else compare (create ''transient'' S (case e of None \<Rightarrow> SeqEnd | Some x \<Rightarrow> x) Transient) (key node))
               (\<lambda>node results. pushInterval (key node) results)
               (\<lambda>cmpResult. cmpResult \<le> 0) (\<lambda>cmpResult. cmpResult \<ge> 0) t rs),
     treeAfter = t,
     calls = [IsEmptyCall,
              CreateCall S (case e of None \<Rightarrow> SeqEnd | Some x \<Rightarrow> x) Transient,
              if fwd then WalkForwardCall else WalkBackwardCall]\<rparr>"
  using assms by (cases e) (simp_all add: gatherIterationResults_def Let_def)

lemma gather_start_example:
  "produced (gatherIterationResults exampleTree [] False (Some (Interior 2 Before)) None) = [exampleC]"
  unfolding exampleTree_def add_def exampleA_def exampleB_def exampleC_def
  by code_simp

lemma treeAfter_find: "treeAfter (findOverlappingIntervals t a b) = t"
  by (simp add: findOverlappingIntervals_def Let_def)

lemma treeAfter_gather: "treeAfter (gatherIterationResults t rs fwd s e) = t"
  by (simp add: gatherIterationResults_def Let_def)

lemma gather_appends:
  "\<exists>ys. produced (gatherIterationResults t rs fwd s e) = rs @ ys \<and> set ys \<subseteq> set (inorder t)"
proof (cases "isEmpty t")
  case True
  then show ?thesis by (simp add: gatherIterationResults_def)
next
  case False
  show ?thesis
  proof (cases s)
    case None
    note noStart = this
    show ?thesis
    proof (cases e)
      case None
      with noStart show ?thesis by (simp add: gather_unfiltered)
    next
      case (Some E)
      with noStart gather_end_filter [OF False, of rs fwd E] show ?thesis by auto
    qed
  next
    case (Some S)
    from gather_start_unfold [OF False, of rs fwd S e] keys_visited Some show ?thesis
      by (cases fwd) (simp_all add: walkForward_push walkBackward_push)
  qed
qed

lemma remove_example:
  "remove exampleTree exampleA = Inr (foldl add Leaf [exampleB, exampleC])"
  unfolding exampleTree_def add_def exampleA_def exampleB_def exampleC_def remove_def
  by code_simp

lemma count_example: "count (storedIds exampleTree) (ident exampleA) = 1"
  by (simp add: storedIds_def inorder_exampleTree exampleA_def exampleB_def exampleC_def)

lemma gather_start_exact:
  assumes "\<not> isEmpty t" and "ordered t"
  shows "produced (gatherIterationResults t rs fwd (Some S) e) =
    rs @ (if fwd then id else rev)
      (filter (\<lambda>i. startPlace i = normalizeSequencePlace S \<and>
                  (case e of None \<Rightarrow> True | Some E \<Rightarrow> endPlace i = normalizeSequencePlace E))
         (inorder t))"
proof (cases e)
  case None
  from gather_start_unfold [OF assms(1), of rs fwd S e] None
    visited_compareStart [OF assms(2), of "create ''transient'' S SeqEnd Transient"]
  show ?thesis
    by (cases fwd) (simp_all add: walkForward_push walkBackward_push rev_map [symmetric] create_def)
next
  case (Some E)
  from gather_start_unfold [OF assms(1), of rs fwd S e] Some
    visited_compare [OF assms(2), of "create ''transient'' S E Transient"]
  show ?thesis
    by (cases fwd) (simp_all add: walkForward_push walkBackward_push rev_map [symmetric] create_def)
qed

section \<open>Claims\<close>

text \<open>
  C1. Whatever the order in which the intervals \<open>xs\<close> were added, and for every query range
  whose normalized places satisfy \<open>A \<le> B\<close> under the position order,
  \<^verbatim>\<open>findOverlappingIntervals(A, B)\<close> returns exactly the stored intervals \<open>I\<close> with
  \<open>I.start \<le> B\<close> and \<open>I.end \<ge> A\<close>, each as often as it is stored.
\<close>

theorem findOverlappingIntervals_exact:
  assumes "comparePlaces (normalizeSequencePlace A) (normalizeSequencePlace B) \<le> 0"
  shows "mset (produced (findOverlappingIntervals (foldl add Leaf xs) A B)) =
    filter_mset
      (\<lambda>I. comparePlaces (startPlace I) (normalizeSequencePlace B) \<le> 0 \<and>
           comparePlaces (endPlace I) (normalizeSequencePlace A) \<ge> 0)
      (mset xs)"
proof -
  have "produced (findOverlappingIntervals (foldl add Leaf xs) A B)
      = filter (\<lambda>i. overlaps i (create ''transient'' A B Transient)) (inorder (foldl add Leaf xs))"
    by (rule findOverlapping_filter [OF treeInvariant_built not_inverted [OF assms]])
  then show ?thesis
    by (simp add: overlaps_create mset_inorder_built)
qed

theorem findOverlappingIntervals_exact_witness:
  "comparePlaces (normalizeSequencePlace (Interior 3 Before)) (normalizeSequencePlace (Interior 4 Before)) \<le> 0
   \<and> mset (produced (findOverlappingIntervals exampleTree (Interior 3 Before) (Interior 4 Before)))
       = {#exampleA, exampleB, exampleC#}"
proof -
  have h: "comparePlaces (normalizeSequencePlace (Interior 3 Before)) (normalizeSequencePlace (Interior 4 Before)) \<le> 0"
    by (simp add: comparePlaces_def placeKey_def)
  have "filter_mset
      (\<lambda>I. comparePlaces (startPlace I) (normalizeSequencePlace (Interior 4 Before)) \<le> 0 \<and>
           comparePlaces (endPlace I) (normalizeSequencePlace (Interior 3 Before)) \<ge> 0)
      (mset [exampleA, exampleB, exampleC]) = {#exampleA, exampleB, exampleC#}"
    by (simp add: comparePlaces_def placeKey_def exampleA_def exampleB_def exampleC_def)
  with findOverlappingIntervals_exact [OF h, of "[exampleA, exampleB, exampleC]"] h
  show ?thesis by (simp add: exampleTree_def)
qed

text \<open>
  C2. \<^verbatim>\<open>findOverlappingIntervals\<close> returns \<open>[]\<close> at once, with the tree unchanged and
  not consulted (no call is made), exactly when the normalized range is inverted: both offsets
  are resolved and the end offset is less than the start offset; or the start is \<open>(-1, Before)\<close>
  and the end is not; or the end is \<open>(-1, After)\<close> and the start is not.
\<close>

theorem findOverlappingIntervals_inverted_iff:
  "(produced (findOverlappingIntervals t start end') = []
      \<and> treeAfter (findOverlappingIntervals t start end') = t
      \<and> calls (findOverlappingIntervals t start end') = [])
   \<longleftrightarrow>
   ((pos (normalizeSequencePlace start) \<noteq> - 1 \<and> pos (normalizeSequencePlace end') \<noteq> - 1
       \<and> pos (normalizeSequencePlace end') < pos (normalizeSequencePlace start))
    \<or> (pos (normalizeSequencePlace start) = - 1 \<and> side (normalizeSequencePlace start) = Before
       \<and> \<not> (pos (normalizeSequencePlace end') = - 1 \<and> side (normalizeSequencePlace end') = Before))
    \<or> (pos (normalizeSequencePlace end') = - 1 \<and> side (normalizeSequencePlace end') = After
       \<and> \<not> (pos (normalizeSequencePlace start) = - 1 \<and> side (normalizeSequencePlace start) = After)))"
proof (cases "invertedSearchInterval (pos (normalizeSequencePlace start))
    (side (normalizeSequencePlace start)) (pos (normalizeSequencePlace end'))
    (side (normalizeSequencePlace end'))")
  case True
  then have "findOverlappingIntervals t start end' = \<lparr>produced = [], treeAfter = t, calls = []\<rparr>"
    by (simp add: findOverlappingIntervals_def)
  with True show ?thesis
    by (simp add: invertedSearchInterval_def)
next
  case False
  then have "calls (findOverlappingIntervals t start end') \<noteq> []"
    by (simp add: findOverlappingIntervals_def Let_def)
  with False show ?thesis
    by (simp add: invertedSearchInterval_def)
qed

theorem findOverlappingIntervals_inverted_iff_witness:
  "(produced (findOverlappingIntervals exampleTree (Interior 5 Before) (Interior 2 Before)) = []
      \<and> treeAfter (findOverlappingIntervals exampleTree (Interior 5 Before) (Interior 2 Before))
          = exampleTree
      \<and> calls (findOverlappingIntervals exampleTree (Interior 5 Before) (Interior 2 Before)) = [])
   \<and> \<not> (produced (findOverlappingIntervals exampleTree (Interior 2 Before) (Interior 5 Before)) = []
      \<and> treeAfter (findOverlappingIntervals exampleTree (Interior 2 Before) (Interior 5 Before))
          = exampleTree
      \<and> calls (findOverlappingIntervals exampleTree (Interior 2 Before) (Interior 5 Before)) = [])"
proof -
  have inverted: "produced (findOverlappingIntervals exampleTree (Interior 5 Before) (Interior 2 Before)) = []
      \<and> treeAfter (findOverlappingIntervals exampleTree (Interior 5 Before) (Interior 2 Before))
          = exampleTree
      \<and> calls (findOverlappingIntervals exampleTree (Interior 5 Before) (Interior 2 Before)) = []"
    by (subst findOverlappingIntervals_inverted_iff) simp
  have proper: "\<not> (produced (findOverlappingIntervals exampleTree (Interior 2 Before) (Interior 5 Before)) = []
      \<and> treeAfter (findOverlappingIntervals exampleTree (Interior 2 Before) (Interior 5 Before))
          = exampleTree
      \<and> calls (findOverlappingIntervals exampleTree (Interior 2 Before) (Interior 5 Before)) = [])"
    by (subst findOverlappingIntervals_inverted_iff) simp
  from inverted proper show ?thesis by (rule conjI)
qed

text \<open>
  C3, as stated, fails. Read with \<open>(-1, Before)\<close> as the logical start, the claim says that a
  query from \<open>(-1, Before)\<close> to a resolved offset is searched. On the tree of \<open>[1,3]\<close>,
  \<open>[4,6]\<close>, \<open>[2,5]\<close> the query from \<open>(-1, Before)\<close> to offset \<open>5\<close> takes the early
  return: nothing is returned, no probe is built and the tree is not consulted.
\<close>

theorem logical_start_before_counterexample:
  "normalizeSequencePlace (Interior (- 1) Before) = \<lparr>pos = - 1, side = Before\<rparr>
   \<and> 0 \<le> pos (normalizeSequencePlace (Interior 5 Before))
   \<and> \<not> isEmpty exampleTree
   \<and> findOverlappingIntervals exampleTree (Interior (- 1) Before) (Interior 5 Before)
       = \<lparr>produced = [], treeAfter = exampleTree, calls = []\<rparr>"
  by (simp add: findOverlappingIntervals_def invertedSearchInterval_def exampleTree_not_empty)

text \<open>
  C3, amended. The logical start of the sequence is \<open>(-1, After)\<close>. For every query whose
  start normalizes to \<open>(-1, After)\<close> and whose end normalizes to a resolved offset (\<open>\<ge> 0\<close>),
  \<^verbatim>\<open>findOverlappingIntervals\<close> on a non-empty tree does not take the inverted-range early
  return: it builds a transient probe and searches the tree.
\<close>

theorem logical_start_after_searches:
  assumes "normalizeSequencePlace start = \<lparr>pos = - 1, side = After\<rparr>"
    and "0 \<le> pos (normalizeSequencePlace end')"
    and "\<not> isEmpty t"
  shows "findOverlappingIntervals t start end'
     = \<lparr>produced = map key (match (create ''transient'' start end' Transient) t),
        treeAfter = t,
        calls = [IsEmptyCall, CreateCall start end' Transient, MatchCall]\<rparr>"
  using assms by (simp add: findOverlappingIntervals_def invertedSearchInterval_def Let_def)

theorem logical_start_after_searches_witness:
  "normalizeSequencePlace SeqStart = \<lparr>pos = - 1, side = After\<rparr>
   \<and> 0 \<le> pos (normalizeSequencePlace (Interior 1 Before))
   \<and> \<not> isEmpty exampleTree
   \<and> findOverlappingIntervals exampleTree SeqStart (Interior 1 Before)
     = \<lparr>produced = map key (match (create ''transient'' SeqStart (Interior 1 Before) Transient) exampleTree),
        treeAfter = exampleTree,
        calls = [IsEmptyCall, CreateCall SeqStart (Interior 1 Before) Transient, MatchCall]\<rparr>"
proof -
  have h1: "normalizeSequencePlace SeqStart = \<lparr>pos = - 1, side = After\<rparr>" by simp
  have h2: "0 \<le> pos (normalizeSequencePlace (Interior 1 Before))" by simp
  note h3 = exampleTree_not_empty
  from logical_start_after_searches [OF h1 h2 h3] h1 h2 h3 show ?thesis by blast
qed

text \<open>
  C4. With neither start nor end supplied, \<^verbatim>\<open>gatherIterationResults\<close> appends every
  stored interval exactly once: the in-order sequence of the tree, ascending by \<open>compare\<close>,
  when iterating forward, and its reversal, descending, when iterating backward.
\<close>

theorem gather_everything_in_order:
  assumes "ordered t"
  shows "produced (gatherIterationResults t rs fwd None None)
           = rs @ (if fwd then inorder t else rev (inorder t))
         \<and> sorted_wrt (\<lambda>a b. compare a b \<le> 0) (inorder t)
         \<and> sorted_wrt (\<lambda>a b. compare b a \<le> 0) (rev (inorder t))"
  using assms by (simp only: gather_unfiltered sorted_inorder sorted_rev_inorder simp_thms)

theorem gather_everything_in_order_witness:
  "ordered exampleTree
   \<and> produced (gatherIterationResults exampleTree [] True None None) = [exampleA, exampleC, exampleB]
   \<and> produced (gatherIterationResults exampleTree [] False None None) = [exampleB, exampleC, exampleA]"
proof -
  from gather_everything_in_order [OF ordered_exampleTree, of "[]" True]
  have f: "produced (gatherIterationResults exampleTree [] True None None) = inorder exampleTree"
    by simp
  from gather_everything_in_order [OF ordered_exampleTree, of "[]" False]
  have b: "produced (gatherIterationResults exampleTree [] False None None) = rev (inorder exampleTree)"
    by simp
  from f b ordered_exampleTree show ?thesis by (simp add: inorder_exampleTree)
qed

text \<open>
  C5. On a non-empty tree, with only an end position \<open>E\<close> supplied,
  \<^verbatim>\<open>gatherIterationResults\<close> builds the probe from \<^verbatim>\<open>"start"\<close> and \<open>E\<close>, traverses the
  whole tree in the requested direction and appends exactly the stored intervals whose end
  compares equal to the end of the probe under \<open>compareEnd\<close>: ascending when iterating
  forward, descending otherwise.
\<close>

theorem gather_end_only:
  assumes "\<not> isEmpty t" and "ordered t"
  shows "gatherIterationResults t rs fwd None (Some E) =
    \<lparr>produced = rs @ (if fwd
         then filter (\<lambda>i. compareEnd (create ''transient'' SeqStart E Transient) i = 0) (inorder t)
         else rev (filter (\<lambda>i. compareEnd (create ''transient'' SeqStart E Transient) i = 0) (inorder t))),
     treeAfter = t,
     calls = [IsEmptyCall, CreateCall SeqStart E Transient,
              if fwd then MapCall else MapBackwardCall]\<rparr>
    \<and> sorted_wrt (\<lambda>a b. compare a b \<le> 0)
        (filter (\<lambda>i. compareEnd (create ''transient'' SeqStart E Transient) i = 0) (inorder t))"
  using gather_end_filter [OF assms(1)] sorted_inorder [OF assms(2)]
  by (simp only: sorted_wrt_filter simp_thms)

theorem gather_end_only_witness:
  "\<not> isEmpty exampleTree \<and> ordered exampleTree
   \<and> produced (gatherIterationResults exampleTree [] False None (Some (Interior 5 Before)))
       = rev (filter (\<lambda>i. compareEnd (create ''transient'' SeqStart (Interior 5 Before) Transient) i = 0)
           (inorder exampleTree))
   \<and> produced (gatherIterationResults exampleTree [] False None (Some (Interior 5 Before)))
       = [exampleC]"
proof -
  from gather_end_only [OF exampleTree_not_empty ordered_exampleTree, of "[]" False "Interior 5 Before"]
  have "produced (gatherIterationResults exampleTree [] False None (Some (Interior 5 Before)))
       = rev (filter (\<lambda>i. compareEnd (create ''transient'' SeqStart (Interior 5 Before) Transient) i = 0)
           (inorder exampleTree))"
    by simp
  with exampleTree_not_empty ordered_exampleTree gather_end_example show ?thesis by simp
qed

text \<open>
  C6. On a non-empty tree, with a start supplied (the end optional),
  \<^verbatim>\<open>gatherIterationResults\<close> performs \<^verbatim>\<open>walkExactMatchesForward\<close>, or
  \<^verbatim>\<open>walkExactMatchesBackward\<close> when iterating backward. The comparator is
  \<open>compareStart\<close> of the transient interval when the end is absent and its \<open>compare\<close> when
  both are present; the walk continues left on \<open>cmp \<le> 0\<close> and right on \<open>cmp \<ge> 0\<close>; the
  intervals appended are exactly those of the nodes the walk acts on, in the order of the walk.
\<close>

theorem gather_start_supplied:
  assumes "\<not> isEmpty t"
    and "endArg = (case e of None \<Rightarrow> SeqEnd | Some x \<Rightarrow> x)"
    and "transientInterval = create ''transient'' S endArg Transient"
    and "compareFn = (\<lambda>node. if e = None then compareStart transientInterval (key node)
                             else compare transientInterval (key node))"
  shows "gatherIterationResults t rs fwd (Some S) e =
    \<lparr>produced =
       (if fwd
        then walkExactMatchesForward compareFn (\<lambda>node results. pushInterval (key node) results)
               (\<lambda>cmpResult. cmpResult \<le> 0) (\<lambda>cmpResult. cmpResult \<ge> 0) t rs
        else walkExactMatchesBackward compareFn (\<lambda>node results. pushInterval (key node) results)
               (\<lambda>cmpResult. cmpResult \<le> 0) (\<lambda>cmpResult. cmpResult \<ge> 0) t rs),
     treeAfter = t,
     calls = [IsEmptyCall, CreateCall S endArg Transient,
              if fwd then WalkForwardCall else WalkBackwardCall]\<rparr>
   \<and> produced (gatherIterationResults t rs fwd (Some S) e) =
       rs @ map key
         ((if fwd then id else rev)
            (visitedForward compareFn (\<lambda>cmpResult. cmpResult \<le> 0) (\<lambda>cmpResult. cmpResult \<ge> 0) t))"
proof -
  have "gatherIterationResults t rs fwd (Some S) e =
    \<lparr>produced =
       (if fwd
        then walkExactMatchesForward compareFn (\<lambda>node results. pushInterval (key node) results)
               (\<lambda>cmpResult. cmpResult \<le> 0) (\<lambda>cmpResult. cmpResult \<ge> 0) t rs
        else walkExactMatchesBackward compareFn (\<lambda>node results. pushInterval (key node) results)
               (\<lambda>cmpResult. cmpResult \<le> 0) (\<lambda>cmpResult. cmpResult \<ge> 0) t rs),
     treeAfter = t,
     calls = [IsEmptyCall, CreateCall S endArg Transient,
              if fwd then WalkForwardCall else WalkBackwardCall]\<rparr>"
    unfolding assms(2-4) by (rule gather_start_unfold [OF assms(1)])
  then show ?thesis
    by (cases fwd) (simp_all add: walkForward_push walkBackward_push)
qed

theorem gather_start_supplied_witness:
  "\<not> isEmpty exampleTree
   \<and> gatherIterationResults exampleTree [] False (Some (Interior 2 Before)) None =
    \<lparr>produced =
       walkExactMatchesBackward
         (\<lambda>node. compareStart (create ''transient'' (Interior 2 Before) SeqEnd Transient) (key node))
         (\<lambda>node results. pushInterval (key node) results)
         (\<lambda>cmpResult. cmpResult \<le> 0) (\<lambda>cmpResult. cmpResult \<ge> 0) exampleTree [],
     treeAfter = exampleTree,
     calls = [IsEmptyCall, CreateCall (Interior 2 Before) SeqEnd Transient, WalkBackwardCall]\<rparr>
   \<and> produced (gatherIterationResults exampleTree [] False (Some (Interior 2 Before)) None) = [exampleC]"
proof -
  from gather_start_supplied [OF exampleTree_not_empty refl refl refl,
      of "[]" False "Interior 2 Before" None]
  have "gatherIterationResults exampleTree [] False (Some (Interior 2 Before)) None =
    \<lparr>produced =
       walkExactMatchesBackward
         (\<lambda>node. compareStart (create ''transient'' (Interior 2 Before) SeqEnd Transient) (key node))
         (\<lambda>node results. pushInterval (key node) results)
         (\<lambda>cmpResult. cmpResult \<le> 0) (\<lambda>cmpResult. cmpResult \<ge> 0) exampleTree [],
     treeAfter = exampleTree,
     calls = [IsEmptyCall, CreateCall (Interior 2 Before) SeqEnd Transient, WalkBackwardCall]\<rparr>"
    by simp
  with exampleTree_not_empty gather_start_example show ?thesis by blast
qed

text \<open>
  C7. With no start and no end, what \<^verbatim>\<open>gatherIterationResults\<close> appends when iterating
  forward is the reversal of what it appends when iterating backward.
\<close>

theorem gather_forward_is_reversed_backward:
  "drop (length rs) (produced (gatherIterationResults t rs True None None))
     = rev (drop (length rs) (produced (gatherIterationResults t rs False None None)))"
  by (simp add: gather_unfiltered)

theorem gather_forward_is_reversed_backward_witness:
  "produced (gatherIterationResults exampleTree [] True None None)
     = rev (produced (gatherIterationResults exampleTree [] False None None))"
  using gather_forward_is_reversed_backward [of "[]" exampleTree] by simp

text \<open>
  C8. \<^verbatim>\<open>findOverlappingIntervals\<close> and \<^verbatim>\<open>gatherIterationResults\<close> leave the tree as
  it was; the transient probe is not inserted, and every interval returned or appended is the
  key of a stored node.
\<close>

theorem queries_leave_tree_alone:
  "treeAfter (findOverlappingIntervals t a b) = t
   \<and> treeAfter (gatherIterationResults t rs fwd s e) = t
   \<and> set (produced (findOverlappingIntervals t a b)) \<subseteq> set (inorder t)
   \<and> take (length rs) (produced (gatherIterationResults t rs fwd s e)) = rs
   \<and> set (drop (length rs) (produced (gatherIterationResults t rs fwd s e))) \<subseteq> set (inorder t)"
proof -
  from gather_appends [of t rs fwd s e] obtain ys where
    "produced (gatherIterationResults t rs fwd s e) = rs @ ys" "set ys \<subseteq> set (inorder t)"
    by blast
  then show ?thesis
    by (simp add: treeAfter_find treeAfter_gather produced_find_subset)
qed

theorem queries_leave_tree_alone_witness:
  "treeAfter (findOverlappingIntervals exampleTree (Interior 3 Before) (Interior 4 Before)) = exampleTree
   \<and> treeAfter (gatherIterationResults exampleTree [] True (Some (Interior 2 Before)) None) = exampleTree
   \<and> set (produced (findOverlappingIntervals exampleTree (Interior 3 Before) (Interior 4 Before)))
       \<subseteq> {exampleA, exampleB, exampleC}"
  using queries_leave_tree_alone [of exampleTree "Interior 3 Before" "Interior 4 Before" "[]" True
      "Some (Interior 2 Before)" None]
  by (simp add: inorder_exampleTree insert_commute)

text \<open>
  C9. Removing an interval whose identity is not stored in the tree (it was never added, or it
  was stored once and has been removed already) fails with the error
  \<open>RemoveNonExistent\<close>; it is not a silent no-op.
\<close>

theorem remove_absent_fails:
  "(ident x \<notin> ident ` set (inorder t) \<longrightarrow> remove t x = Inl RemoveNonExistent)
   \<and> (remove t x = Inr t' \<and> count (storedIds t) (ident x) = 1
        \<longrightarrow> remove t' x = Inl RemoveNonExistent)"
  by (auto simp: remove_def removeExisting_def removeNode_absent
      intro: remove_twice [unfolded remove_def removeExisting_def])

theorem remove_absent_fails_witness:
  "ident exampleA \<notin> ident ` set (inorder Leaf)
   \<and> remove Leaf exampleA = Inl RemoveNonExistent
   \<and> remove exampleTree exampleA = Inr (foldl add Leaf [exampleB, exampleC])
   \<and> count (storedIds exampleTree) (ident exampleA) = 1
   \<and> remove (foldl add Leaf [exampleB, exampleC]) exampleA = Inl RemoveNonExistent"
proof -
  have absent: "ident exampleA \<notin> ident ` set (inorder Leaf)" by simp
  from remove_absent_fails [of exampleA Leaf] absent
  have first: "remove Leaf exampleA = Inl RemoveNonExistent" by blast
  from remove_absent_fails [of exampleA exampleTree "foldl add Leaf [exampleB, exampleC]"]
    remove_example count_example
  have again: "remove (foldl add Leaf [exampleB, exampleC]) exampleA = Inl RemoveNonExistent"
    by blast
  from absent first remove_example count_example again show ?thesis by blast
qed

text \<open>
  C10. On an empty tree \<^verbatim>\<open>gatherIterationResults\<close> returns at once, whatever the start,
  the end and the direction: the results are unchanged and the only call made is the emptiness
  test, so no transient probe is built.
\<close>

theorem gather_empty_tree:
  assumes "isEmpty t"
  shows "gatherIterationResults t rs fwd start end'
     = \<lparr>produced = rs, treeAfter = t, calls = [IsEmptyCall]\<rparr>"
  using assms by (simp add: gatherIterationResults_def)

theorem gather_empty_tree_witness:
  "isEmpty Leaf
   \<and> gatherIterationResults Leaf [exampleA] False (Some (Interior 2 Before)) (Some SeqEnd)
     = \<lparr>produced = [exampleA], treeAfter = Leaf, calls = [IsEmptyCall]\<rparr>"
proof -
  have h: "isEmpty Leaf" by (simp add: isEmpty_def)
  from gather_empty_tree [OF h] h show ?thesis by blast
qed

end
